theory Spec2Isabelle
  imports Complex_Main "HOL-Library.Word"
begin

section \<open>Runes, bytes and the part of Go's standard library the scanner calls\<close>

text \<open>
  The repository holds two variants of one scanner: \<^verbatim>\<open>main.go\<close> (signature filter,
  UTF-8 decoding, letter-ratio and vowel heuristics, descending scan) and the file
  \<^verbatim>\<open>unnamed/part_000\<close> (byte-range decoding, lighter classifier, ascending scan).
  Functions of \<^verbatim>\<open>part_000\<close> whose name also occurs in \<^verbatim>\<open>main.go\<close> carry the
  suffix \<open>_part0\<close>.

  A byte is an \<open>8 word\<close>. A rune is a natural number (a code point). A Go string that
  holds valid UTF-8 is modelled as the list of its code points; \<open>byteLen\<close> gives what
  Go's \<^verbatim>\<open>len\<close> returns for it. Every string that reaches the classifier is valid
  UTF-8: the decoders build it with \<^verbatim>\<open>WriteRune\<close> of decoded runes (or with ASCII
  bytes), and \<^verbatim>\<open>strings.Fields\<close>, \<^verbatim>\<open>strings.Join\<close> and the regular expression cut
  and join at rune boundaries.
\<close>

type_synonym byte = "8 word"
type_synonym rune = nat
type_synonym gostring = "rune list"

text \<open>
  Go's \<^verbatim>\<open>unicode\<close> package decides Latin-1 code points from a fixed 256-entry table and
  all others from the range tables of the Unicode database. The Latin-1 part is written
  out; the range tables beyond Latin-1 are not part of the repository and are taken as a
  parameter, so every theorem holds for whatever those tables contain.
\<close>

record unicodeTables =
  letterTab :: "rune \<Rightarrow> bool"
  numberTab :: "rune \<Rightarrow> bool"
  printTab :: "rune \<Rightarrow> bool"
  lowerTab :: "rune \<Rightarrow> rune"

definition MaxLatin1 :: rune where
  "MaxLatin1 = 0xFF"

definition MaxASCII :: rune where
  "MaxASCII = 0x7F"

definition RuneError :: rune where
  "RuneError = 0xFFFD"

definition IsLetter :: "unicodeTables \<Rightarrow> rune \<Rightarrow> bool" where
  "IsLetter U r =
     (if r \<le> MaxLatin1
      then (0x41 \<le> r \<and> r \<le> 0x5A) \<or> (0x61 \<le> r \<and> r \<le> 0x7A) \<or> r = 0xAA \<or> r = 0xB5
           \<or> r = 0xBA \<or> (0xC0 \<le> r \<and> r \<le> 0xD6) \<or> (0xD8 \<le> r \<and> r \<le> 0xF6) \<or> 0xF8 \<le> r
      else letterTab U r)"

definition IsNumber :: "unicodeTables \<Rightarrow> rune \<Rightarrow> bool" where
  "IsNumber U r =
     (if r \<le> MaxLatin1
      then (0x30 \<le> r \<and> r \<le> 0x39) \<or> r = 0xB2 \<or> r = 0xB3 \<or> r = 0xB9
           \<or> (0xBC \<le> r \<and> r \<le> 0xBE)
      else numberTab U r)"

definition IsPrint :: "unicodeTables \<Rightarrow> rune \<Rightarrow> bool" where
  "IsPrint U r =
     (if r \<le> MaxLatin1
      then (0x20 \<le> r \<and> r \<le> 0x7E) \<or> (0xA1 \<le> r \<and> r \<noteq> 0xAD)
      else printTab U r)"

definition IsSpace :: "rune \<Rightarrow> bool" where
  "IsSpace r =
     (if r \<le> MaxLatin1
      then r = 0x09 \<or> r = 0x0A \<or> r = 0x0B \<or> r = 0x0C \<or> r = 0x0D \<or> r = 0x20
           \<or> r = 0x85 \<or> r = 0xA0
      else r = 0x1680 \<or> (0x2000 \<le> r \<and> r \<le> 0x200A) \<or> r = 0x2028 \<or> r = 0x2029
           \<or> r = 0x202F \<or> r = 0x205F \<or> r = 0x3000)"

definition IsControl :: "rune \<Rightarrow> bool" where
  "IsControl r = (r < 0x20 \<or> (0x7F \<le> r \<and> r < 0xA0))"

definition ToLower :: "unicodeTables \<Rightarrow> rune \<Rightarrow> rune" where
  "ToLower U r =
     (if r \<le> MaxASCII
      then (if 0x41 \<le> r \<and> r \<le> 0x5A then r + 0x20 else r)
      else lowerTab U r)"

text \<open>\<^verbatim>\<open>utf8.RuneLen\<close> for a rune that a valid string can hold.\<close>

definition RuneLen :: "rune \<Rightarrow> nat" where
  "RuneLen r = (if r < 0x80 then 1 else if r < 0x800 then 2 else if r < 0x10000 then 3 else 4)"

definition byteLen :: "gostring \<Rightarrow> nat" where
  "byteLen s = sum_list (map RuneLen s)"

text \<open>
  \<^verbatim>\<open>strings.Fields\<close> is \<^verbatim>\<open>strings.FieldsFunc(s, unicode.IsSpace)\<close>: one pass over the
  runes with the start of the open span; \<open>cur\<close> is the open span (empty when none is
  open, as a span holds at least one rune).
\<close>

fun FieldsFunc :: "(rune \<Rightarrow> bool) \<Rightarrow> gostring \<Rightarrow> gostring \<Rightarrow> gostring list" where
  "FieldsFunc f [] cur = (if cur = [] then [] else [cur])"
| "FieldsFunc f (r # rs) cur =
     (if f r
      then (if cur = [] then FieldsFunc f rs [] else cur # FieldsFunc f rs [])
      else FieldsFunc f rs (cur @ [r]))"

definition Fields :: "gostring \<Rightarrow> gostring list" where
  "Fields s = FieldsFunc IsSpace s []"

text \<open>\<^verbatim>\<open>strings.Join(elems, " ")\<close>.\<close>

fun JoinSp :: "gostring list \<Rightarrow> gostring" where
  "JoinSp [] = []"
| "JoinSp [w] = w"
| "JoinSp (w # ws) = w @ [0x20] @ JoinSp ws"

section \<open>Message Classifier\<close>

definition minMsgLength :: nat where
  "minMsgLength = 4"

definition minWordLength :: nat where
  "minWordLength = 3"

definition minWords :: nat where
  "minWords = 2"

text \<open>\<^verbatim>\<open>hasLetters\<close> (the same function in both files).\<close>

fun hasLetters :: "unicodeTables \<Rightarrow> gostring \<Rightarrow> bool" where
  "hasLetters U [] = False"
| "hasLetters U (r # rs) = (if IsLetter U r then True else hasLetters U rs)"

fun hasVowel :: "unicodeTables \<Rightarrow> gostring \<Rightarrow> bool" where
  "hasVowel U [] = False"
| "hasVowel U (r # rs) =
     (if ToLower U r = 0x61 \<or> ToLower U r = 0x65 \<or> ToLower U r = 0x69
         \<or> ToLower U r = 0x6F \<or> ToLower U r = 0x75
      then True else hasVowel U rs)"

text \<open>The loop of \<^verbatim>\<open>hasValidWords\<close> (\<^verbatim>\<open>main.go\<close>), with its counter.\<close>

fun validWordsLoop :: "unicodeTables \<Rightarrow> gostring list \<Rightarrow> nat \<Rightarrow> nat" where
  "validWordsLoop U [] validWords = validWords"
| "validWordsLoop U (word # words) validWords =
     validWordsLoop U words
       (if byteLen word \<ge> minWordLength \<and> hasLetters U word \<and> hasVowel U word
        then validWords + 1 else validWords)"

definition hasValidWords :: "unicodeTables \<Rightarrow> gostring list \<Rightarrow> bool" where
  "hasValidWords U words = (validWordsLoop U words 0 \<ge> minWords)"

text \<open>The counting loop of \<^verbatim>\<open>isValidMessage\<close>: the pair is (letterCount, totalChars).\<close>

fun countChars :: "unicodeTables \<Rightarrow> gostring \<Rightarrow> nat \<times> nat \<Rightarrow> nat \<times> nat" where
  "countChars U [] (letterCount, totalChars) = (letterCount, totalChars)"
| "countChars U (r # rs) (letterCount, totalChars) =
     countChars U rs
       (if IsLetter U r then letterCount + 1 else letterCount,
        if \<not> IsSpace r then totalChars + 1 else totalChars)"

text \<open>
  \<^verbatim>\<open>isValidMessage\<close>. The quotient \<^verbatim>\<open>float64(letterCount)/float64(totalChars)\<close> is
  compared with \<^verbatim>\<open>letterRatio = 0.6\<close>. The quotient is taken over the reals here; the
  float64 comparison gives the same answer for every string of fewer than \<open>2^50\<close> runes,
  as then a quotient below \<open>3/5\<close> is below it by more than \<open>1/(5 * 2^50)\<close>, far more than
  the rounding of the quotient and of the constant. In Go a float64 division by zero
  does not panic (it gives NaN or an infinity); the model keeps a zero denominator as an
  outcome of its own, \<open>Inl ZeroDenominator\<close>, so that reaching it can be stated.
\<close>

datatype fault = ZeroDenominator | NilDereference

definition letterRatio :: real where
  "letterRatio = 0.6"

definition isValidMessage :: "unicodeTables \<Rightarrow> gostring \<Rightarrow> fault + bool" where
  "isValidMessage U s =
     (let words = Fields s in
      if length words < minWords then Inr False
      else
        (case countChars U s (0, 0) of (letterCount, totalChars) \<Rightarrow>
           if totalChars = 0 then Inl ZeroDenominator
           else Inr (real letterCount / real totalChars \<ge> letterRatio
                     \<and> hasValidWords U words)))"

text \<open>The loop of \<^verbatim>\<open>isMeaningful\<close> (\<^verbatim>\<open>part_000\<close>), with its counter.\<close>

fun meaningfulLoop :: "unicodeTables \<Rightarrow> gostring list \<Rightarrow> nat \<Rightarrow> nat" where
  "meaningfulLoop U [] validWords = validWords"
| "meaningfulLoop U (word # words) validWords =
     meaningfulLoop U words
       (if byteLen word \<ge> minWordLength \<and> hasLetters U word
        then validWords + 1 else validWords)"

definition isMeaningful :: "unicodeTables \<Rightarrow> gostring \<Rightarrow> bool" where
  "isMeaningful U s =
     (let words = Fields s in
      if length words < minWords then False
      else meaningfulLoop U words 0 \<ge> minWords)"

text \<open>
  The tables used where a concrete input is evaluated: nothing beyond Latin-1 is a
  letter, a number or printable, and lower-casing leaves it alone.
\<close>

definition latin1Only :: unicodeTables where
  "latin1Only = \<lparr>letterTab = (\<lambda>r. False), numberTab = (\<lambda>r. False),
                 printTab = (\<lambda>r. False), lowerTab = (\<lambda>r. r)\<rparr>"

text \<open>
  The test applied to one word by the loop of \<^verbatim>\<open>hasValidWords\<close> and by the loop of
  \<^verbatim>\<open>isMeaningful\<close>: a valid word of the stronger and of the lighter variant.
\<close>

definition validWord :: "unicodeTables \<Rightarrow> gostring \<Rightarrow> bool" where
  "validWord U word =
     (byteLen word \<ge> minWordLength \<and> hasLetters U word \<and> hasVowel U word)"

definition validWord_part0 :: "unicodeTables \<Rightarrow> gostring \<Rightarrow> bool" where
  "validWord_part0 U word = (byteLen word \<ge> minWordLength \<and> hasLetters U word)"

text \<open>Inputs at which the theorems below are evaluated.\<close>

definition hello_world :: gostring where
  "hello_world = [0x68, 0x65, 0x6C, 0x6C, 0x6F, 0x20, 0x77, 0x6F, 0x72, 0x6C, 0x64]"

section \<open>Byte Decoder\<close>

text \<open>
  \<^verbatim>\<open>utf8.DecodeRune\<close>: the first byte gives the size of the sequence and the range
  accepted for the second byte (which excludes overlong forms, surrogates and values
  above \<open>U+10FFFF\<close>); the other bytes are continuation bytes \<open>0x80..0xBF\<close>. Any failure
  gives \<open>(RuneError, 1)\<close>, the empty input \<open>(RuneError, 0)\<close>. The masks of the Go code
  are written with \<open>mod\<close> (\<open>p0 & 0x1F\<close> is \<open>x mod 32\<close>) and its shifts and ors, which
  combine disjoint bit fields, with multiplication and addition.
\<close>

definition runeSize :: "nat \<Rightarrow> nat" where
  "runeSize x = (if x < 0xE0 then 2 else if x < 0xF0 then 3 else 4)"

definition acceptLo :: "nat \<Rightarrow> nat" where
  "acceptLo x = (if x = 0xE0 then 0xA0 else if x = 0xF0 then 0x90 else 0x80)"

definition acceptHi :: "nat \<Rightarrow> nat" where
  "acceptHi x = (if x = 0xED then 0x9F else if x = 0xF4 then 0x8F else 0xBF)"

definition contByte :: "byte \<Rightarrow> bool" where
  "contByte b = (0x80 \<le> unat b \<and> unat b \<le> 0xBF)"

definition DecodeRune :: "byte list \<Rightarrow> rune \<times> nat" where
  "DecodeRune p =
     (case p of
        [] \<Rightarrow> (RuneError, 0)
      | p0 # rest \<Rightarrow>
          (let x = unat p0 in
           if x < 0x80 then (x, 1)
           else if x < 0xC2 \<or> 0xF5 \<le> x then (RuneError, 1)
           else if length p < runeSize x then (RuneError, 1)
           else
             (let b1 = unat (p ! 1) in
              if b1 < acceptLo x \<or> acceptHi x < b1 then (RuneError, 1)
              else if runeSize x \<le> 2 then ((x mod 32) * 64 + b1 mod 64, 2)
              else if \<not> contByte (p ! 2) then (RuneError, 1)
              else if runeSize x \<le> 3
                then ((x mod 16) * 4096 + (b1 mod 64) * 64 + unat (p ! 2) mod 64, 3)
              else if \<not> contByte (p ! 3) then (RuneError, 1)
              else ((x mod 8) * 262144 + (b1 mod 64) * 4096 + (unat (p ! 2) mod 64) * 64
                    + unat (p ! 3) mod 64, 4))))"

text \<open>
  The loop of \<^verbatim>\<open>decodeUTF8\<close> (\<^verbatim>\<open>main.go\<close>); \<open>sb\<close> is the string builder. A rune equal to
  \<^verbatim>\<open>utf8.RuneError\<close> drops one byte, also where the input holds the three bytes of a
  well-formed \<open>U+FFFD\<close>.
\<close>

function decodeUTF8_loop :: "unicodeTables \<Rightarrow> byte list \<Rightarrow> gostring \<Rightarrow> gostring" where
  "decodeUTF8_loop U data sb =
     (if data = [] then sb
      else if fst (DecodeRune data) = RuneError then decodeUTF8_loop U (tl data) sb
      else decodeUTF8_loop U (drop (snd (DecodeRune data)) data)
             (if IsPrint U (fst (DecodeRune data)) then sb @ [fst (DecodeRune data)] else sb))"
  by pat_completeness auto
termination
proof (relation "measure (\<lambda>(U, data, sb). length data)")
  show "wf (measure (\<lambda>(U, data, sb). length data))" by simp
next
  fix U :: unicodeTables and data :: "byte list" and sb :: gostring
  assume "data \<noteq> []"
  then show "((U, tl data, sb), (U, data, sb)) \<in> measure (\<lambda>(U, data, sb). length data)"
    by (cases data) simp_all
next
  fix U :: unicodeTables and data :: "byte list" and sb :: gostring
  assume ne: "data \<noteq> []"
  then have "0 < snd (DecodeRune data)"
    by (cases data) (simp_all add: DecodeRune_def Let_def)
  with ne show "((U, drop (snd (DecodeRune data)) data,
                  if IsPrint U (fst (DecodeRune data)) then sb @ [fst (DecodeRune data)] else sb),
                 (U, data, sb)) \<in> measure (\<lambda>(U, data, sb). length data)"
    by simp
qed

declare decodeUTF8_loop.simps [simp del]

definition decodeUTF8 :: "unicodeTables \<Rightarrow> byte list \<Rightarrow> gostring" where
  "decodeUTF8 U data = JoinSp (Fields (decodeUTF8_loop U data []))"

text \<open>\<^verbatim>\<open>filterPrintable\<close> (\<^verbatim>\<open>part_000\<close>): the byte-range strategy.\<close>

definition asciiPrintable :: byte where
  "asciiPrintable = 32"

definition asciiMax :: byte where
  "asciiMax = 126"

fun filterPrintable_loop :: "byte list \<Rightarrow> gostring \<Rightarrow> gostring" where
  "filterPrintable_loop [] sb = sb"
| "filterPrintable_loop (b # data) sb =
     filterPrintable_loop data
       (if asciiPrintable \<le> b \<and> b \<le> asciiMax then sb @ [unat b] else sb @ [0x20])"

definition filterPrintable :: "byte list \<Rightarrow> gostring" where
  "filterPrintable data = JoinSp (Fields (filterPrintable_loop data []))"

text \<open>
  The bytes of a string: the UTF-8 encoding of each rune, as \<^verbatim>\<open>utf8.AppendRune\<close>
  (used by \<^verbatim>\<open>WriteRune\<close>) writes it. A surrogate or a value above \<open>U+10FFFF\<close> is
  written as \<open>U+FFFD\<close>.
\<close>

definition EncodeRune :: "rune \<Rightarrow> byte list" where
  "EncodeRune r =
     (if r < 0x80 then [of_nat r]
      else if r < 0x800 then [of_nat (0xC0 + r div 64), of_nat (0x80 + r mod 64)]
      else if 0x10FFFF < r \<or> (0xD800 \<le> r \<and> r \<le> 0xDFFF) then [0xEF, 0xBF, 0xBD]
      else if r < 0x10000
        then [of_nat (0xE0 + r div 4096), of_nat (0x80 + (r div 64) mod 64),
              of_nat (0x80 + r mod 64)]
      else [of_nat (0xF0 + r div 262144), of_nat (0x80 + (r div 4096) mod 64),
            of_nat (0x80 + (r div 64) mod 64), of_nat (0x80 + r mod 64)])"

definition stringBytes :: "gostring \<Rightarrow> byte list" where
  "stringBytes s = concat (map EncodeRune s)"

section \<open>Candidate Extractor\<close>

text \<open>
  The two patterns are one character class repeated at least \<open>minMsgLength\<close> times:
  \<^verbatim>\<open>[\p{L}\p{N}\s]{4,}\<close> in \<^verbatim>\<open>main.go\<close> (\<^verbatim>\<open>\s\<close> of Go's regexp syntax is
  \<^verbatim>\<open>[\t\n\f\r ]\<close>) and \<^verbatim>\<open>[a-zA-Z0-9 ]{4,}\<close> in \<^verbatim>\<open>part_000\<close>.
\<close>

definition msgPattern :: "unicodeTables \<Rightarrow> rune \<Rightarrow> bool" where
  "msgPattern U r =
     (IsLetter U r \<or> IsNumber U r
      \<or> r = 0x09 \<or> r = 0x0A \<or> r = 0x0C \<or> r = 0x0D \<or> r = 0x20)"

definition msgPattern_part0 :: "rune \<Rightarrow> bool" where
  "msgPattern_part0 r =
     ((0x61 \<le> r \<and> r \<le> 0x7A) \<or> (0x41 \<le> r \<and> r \<le> 0x5A) \<or> (0x30 \<le> r \<and> r \<le> 0x39)
      \<or> r = 0x20)"

text \<open>
  \<^verbatim>\<open>FindAllStringIndex\<close> for such a pattern. At each position the repetition is greedy:
  it takes the longest run of class characters and matches when the run has at least
  \<open>minMsgLength\<close> of them; the search goes on after the end of a match, or one rune
  further where there is no match. Each match is the pair of its start and its end, in
  runes. \<open>pos\<close> is the position of \<open>s\<close> in the text.
\<close>

function findAll :: "(rune \<Rightarrow> bool) \<Rightarrow> gostring \<Rightarrow> nat \<Rightarrow> (nat \<times> nat) list" where
  "findAll cls s pos =
     (if s = [] then []
      else if minMsgLength \<le> length (takeWhile cls s)
        then (pos, pos + length (takeWhile cls s))
             # findAll cls (drop (length (takeWhile cls s)) s) (pos + length (takeWhile cls s))
      else findAll cls (tl s) (pos + 1))"
  by pat_completeness auto
termination
proof (relation "measure (\<lambda>(cls, s, pos). length s)")
  show "wf (measure (\<lambda>(cls, s, pos). length s))" by simp
next
  fix cls :: "rune \<Rightarrow> bool" and s :: gostring and pos :: nat
  assume "s \<noteq> []" and "minMsgLength \<le> length (takeWhile cls s)"
  then show "((cls, drop (length (takeWhile cls s)) s, pos + length (takeWhile cls s)),
              (cls, s, pos)) \<in> measure (\<lambda>(cls, s, pos). length s)"
    using length_takeWhile_le [of cls s] by (simp add: minMsgLength_def)
next
  fix cls :: "rune \<Rightarrow> bool" and s :: gostring and pos :: nat
  assume "s \<noteq> []"
  then show "((cls, tl s, pos + 1), (cls, s, pos)) \<in> measure (\<lambda>(cls, s, pos). length s)"
    by (cases s) simp_all
qed

declare findAll.simps [simp del]

definition FindAllStringIndex :: "(rune \<Rightarrow> bool) \<Rightarrow> gostring \<Rightarrow> (nat \<times> nat) list" where
  "FindAllStringIndex cls s = findAll cls s 0"

definition FindAllString :: "(rune \<Rightarrow> bool) \<Rightarrow> gostring \<Rightarrow> gostring list" where
  "FindAllString cls s =
     map (\<lambda>(b, e). take (e - b) (drop b s)) (FindAllStringIndex cls s)"

text \<open>
  A rune that UTF-8 can encode (no surrogate, at most \<open>U+10FFFF\<close>), and the test that a
  string has no two white-space runes in a row.
\<close>

definition validRune :: "rune \<Rightarrow> bool" where
  "validRune r = (r < 0xD800 \<or> (0xE000 \<le> r \<and> r \<le> 0x10FFFF))"

fun noSpaceRun :: "gostring \<Rightarrow> bool" where
  "noSpaceRun (a # b # rest) = (\<not> (IsSpace a \<and> IsSpace b) \<and> noSpaceRun (b # rest))"
| "noSpaceRun rest = True"

definition sample_utf8 :: "byte list" where
  "sample_utf8 = [0x68, 0xC3, 0xA9, 0x20, 0x20, 0xEF, 0xBF, 0xBD, 0x41, 0x07]"

definition sample_call :: "byte list" where
  "sample_call = [0xA9, 0x05, 0x9C, 0xBB, 0x68, 0x65, 0x6C, 0x6C, 0x6F, 0x20, 0x77, 0x6F,
                  0x72, 0x6C, 0x64]"

(*DEFS-END*)

section \<open>Properties of the classifier\<close>

lemma validWordsLoop_count:
  "validWordsLoop U ws n = n + length (filter (validWord U) ws)"
  by (induction ws arbitrary: n) (simp_all add: validWord_def)

lemma meaningfulLoop_count:
  "meaningfulLoop U ws n = n + length (filter (validWord_part0 U) ws)"
  by (induction ws arbitrary: n) (simp_all add: validWord_part0_def)

lemma countChars_count:
  "countChars U s (l, t) =
     (l + length (filter (IsLetter U) s), t + length (filter (\<lambda>r. \<not> IsSpace r) s))"
  by (induction s arbitrary: l t) simp_all

lemma FieldsFunc_concat:
  "concat (FieldsFunc f s cur) = cur @ filter (\<lambda>r. \<not> f r) s"
  by (induction s arbitrary: cur) simp_all

lemma FieldsFunc_words:
  "w \<in> set (FieldsFunc f s cur) \<Longrightarrow> \<forall>r\<in>set cur. \<not> f r
   \<Longrightarrow> w \<noteq> [] \<and> (\<forall>r\<in>set w. \<not> f r)"
proof (induction s arbitrary: cur)
  case Nil
  then show ?case by (cases "cur = []") simp_all
next
  case (Cons r rs)
  show ?case
  proof (cases "f r")
    case True
    show ?thesis
    proof (cases "cur = []")
      case c: True
      with True Cons.prems have "w \<in> set (FieldsFunc f rs [])" by simp
      then show ?thesis by (rule Cons.IH) simp
    next
      case c: False
      with True Cons.prems have "w = cur \<or> w \<in> set (FieldsFunc f rs [])" by simp
      then show ?thesis
      proof
        assume "w = cur"
        with c Cons.prems(2) show ?thesis by simp
      next
        assume "w \<in> set (FieldsFunc f rs [])"
        then show ?thesis by (rule Cons.IH) simp
      qed
    qed
  next
    case False
    with Cons.prems have "w \<in> set (FieldsFunc f rs (cur @ [r]))" by simp
    then show ?thesis
      by (rule Cons.IH) (use False Cons.prems(2) in simp)
  qed
qed

lemma Fields_words:
  "w \<in> set (Fields s) \<Longrightarrow> w \<noteq> [] \<and> (\<forall>r\<in>set w. \<not> IsSpace r)"
  unfolding Fields_def by (erule FieldsFunc_words) simp

lemma length_le_concat:
  "\<forall>w\<in>set ws. w \<noteq> [] \<Longrightarrow> length ws \<le> length (concat ws)"
proof (induction ws)
  case Nil
  then show ?case by simp
next
  case (Cons w ws)
  then have "length w \<ge> 1" by (cases w) simp_all
  with Cons show ?case by simp
qed

lemma Fields_length_le_nonspace:
  "length (Fields s) \<le> length (filter (\<lambda>r. \<not> IsSpace r) s)"
proof -
  have "length (Fields s) \<le> length (concat (Fields s))"
    by (rule length_le_concat) (simp add: Fields_words)
  then show ?thesis by (simp add: Fields_def FieldsFunc_concat)
qed

lemma isValidMessage_eq:
  "isValidMessage U s =
     Inr (length (Fields s) \<ge> minWords
          \<and> real (length (filter (IsLetter U) s))
              / real (length (filter (\<lambda>r. \<not> IsSpace r) s)) \<ge> letterRatio
          \<and> length (filter (validWord U) (Fields s)) \<ge> minWords)"
proof (cases "length (Fields s) < minWords")
  case True
  then show ?thesis by (simp add: isValidMessage_def)
next
  case False
  with Fields_length_le_nonspace [of s]
  have "length (filter (\<lambda>r. \<not> IsSpace r) s) \<noteq> 0"
    unfolding minWords_def by linarith
  with False show ?thesis
    by (simp add: isValidMessage_def countChars_count hasValidWords_def validWordsLoop_count)
qed

lemma isMeaningful_eq:
  "isMeaningful U s = (length (filter (validWord_part0 U) (Fields s)) \<ge> minWords)"
proof (cases "length (Fields s) < minWords")
  case True
  have "length (filter (validWord_part0 U) (Fields s)) \<le> length (Fields s)" by simp
  with True have "\<not> length (filter (validWord_part0 U) (Fields s)) \<ge> minWords"
    by linarith
  with True show ?thesis by (simp add: isMeaningful_def)
next
  case False
  then show ?thesis by (simp add: isMeaningful_def meaningfulLoop_count)
qed

lemma filter_mono_length:
  "(\<And>x. P x \<Longrightarrow> Q x) \<Longrightarrow> length (filter P xs) \<le> length (filter Q xs)"
  by (induction xs) auto

text \<open>
  C10. Whatever the stronger classifier \<open>isValidMessage\<close> (word count, letter ratio at
  least 0.6, valid words with a vowel) accepts, the lighter classifier \<open>isMeaningful\<close>
  (word count, valid words without the vowel and ratio checks) accepts as well.
\<close>

theorem strong_refines_light:
  "isValidMessage U s = Inr True \<Longrightarrow> isMeaningful U s"
proof -
  assume "isValidMessage U s = Inr True"
  then have "minWords \<le> length (filter (validWord U) (Fields s))"
    by (simp add: isValidMessage_eq)
  moreover have "length (filter (validWord U) (Fields s))
                 \<le> length (filter (validWord_part0 U) (Fields s))"
    by (rule filter_mono_length) (simp add: validWord_def validWord_part0_def)
  ultimately show ?thesis by (simp add: isMeaningful_eq)
qed

theorem strong_refines_light_witness:
  "isValidMessage latin1Only hello_world = Inr True \<and> isMeaningful latin1Only hello_world"
proof -
  have h: "isValidMessage latin1Only hello_world = Inr True" by code_simp
  from strong_refines_light [OF h] h show ?thesis by simp
qed

section \<open>Fields and Join\<close>

lemma IsSpace_0x20: "IsSpace 0x20"
  by (simp add: IsSpace_def MaxLatin1_def)

lemma FieldsFunc_append_nospace:
  "\<forall>r\<in>set w. \<not> f r \<Longrightarrow> FieldsFunc f (w @ s) cur = FieldsFunc f s (cur @ w)"
  by (induction w arbitrary: cur) simp_all

lemma Fields_JoinSp:
  "\<forall>w\<in>set ws. w \<noteq> [] \<and> (\<forall>r\<in>set w. \<not> IsSpace r) \<Longrightarrow> Fields (JoinSp ws) = ws"
proof (induction ws rule: JoinSp.induct)
  case 1
  show ?case by (simp add: Fields_def)
next
  case (2 w)
  then have "FieldsFunc IsSpace (w @ []) [] = FieldsFunc IsSpace [] ([] @ w)"
    by (intro FieldsFunc_append_nospace) simp
  with 2 show ?case by (simp add: Fields_def)
next
  case (3 w v vs)
  then have ih: "FieldsFunc IsSpace (JoinSp (v # vs)) [] = v # vs"
    by (simp add: Fields_def)
  from 3 have "FieldsFunc IsSpace (w @ (0x20 # JoinSp (v # vs))) []
        = FieldsFunc IsSpace (0x20 # JoinSp (v # vs)) ([] @ w)"
    by (intro FieldsFunc_append_nospace) simp
  also from 3 have "\<dots> = w # FieldsFunc IsSpace (JoinSp (v # vs)) []"
    by (simp add: IsSpace_0x20)
  finally show ?case using ih by (simp add: Fields_def)
qed

lemma Fields_set: "set (concat (Fields s)) \<subseteq> set s"
  by (auto simp: Fields_def FieldsFunc_concat)

lemma JoinSp_set: "set (JoinSp ws) \<subseteq> set (concat ws) \<union> {0x20}"
  by (induction ws rule: JoinSp.induct) auto

lemma noSpaceRun_word: "\<forall>r\<in>set w. \<not> IsSpace r \<Longrightarrow> noSpaceRun w"
  by (induction w rule: noSpaceRun.induct) simp_all

lemma noSpaceRun_app:
  "\<forall>r\<in>set w. \<not> IsSpace r \<Longrightarrow> w \<noteq> [] \<Longrightarrow> t \<noteq> [] \<Longrightarrow> \<not> IsSpace (hd t) \<Longrightarrow> noSpaceRun t
   \<Longrightarrow> noSpaceRun (w @ 0x20 # t)"
proof (induction w)
  case Nil
  then show ?case by simp
next
  case (Cons a w)
  show ?case
  proof (cases w)
    case Nil
    with Cons.prems show ?thesis by (cases t) simp_all
  next
    case (Cons a' w')
    with Cons.prems Cons.IH show ?thesis by simp
  qed
qed

lemma JoinSp_normal:
  "\<forall>w\<in>set ws. w \<noteq> [] \<and> (\<forall>r\<in>set w. \<not> IsSpace r) \<Longrightarrow>
     noSpaceRun (JoinSp ws)
     \<and> (ws \<noteq> [] \<longrightarrow> JoinSp ws \<noteq> [] \<and> \<not> IsSpace (hd (JoinSp ws)) \<and> \<not> IsSpace (last (JoinSp ws)))"
proof (induction ws rule: JoinSp.induct)
  case 1
  show ?case by simp
next
  case (2 w)
  then show ?case by (simp add: noSpaceRun_word)
next
  case (3 w v vs)
  then have ih: "noSpaceRun (JoinSp (v # vs))" "JoinSp (v # vs) \<noteq> []"
    "\<not> IsSpace (hd (JoinSp (v # vs)))" "\<not> IsSpace (last (JoinSp (v # vs)))"
    by simp_all
  from 3 have w: "w \<noteq> []" "\<forall>r\<in>set w. \<not> IsSpace r" by simp_all
  have "noSpaceRun (w @ 0x20 # JoinSp (v # vs))"
    using w ih by (intro noSpaceRun_app) simp_all
  moreover have "\<not> IsSpace (hd (w @ 0x20 # JoinSp (v # vs)))"
    using w by (cases w) simp_all
  moreover have "\<not> IsSpace (last (w @ 0x20 # JoinSp (v # vs)))"
    using ih by simp
  ultimately show ?case by simp
qed

section \<open>Properties of the decoders\<close>

lemma IsPrint_not_control: "IsPrint U r \<Longrightarrow> \<not> IsControl r"
  by (auto simp: IsPrint_def IsControl_def MaxLatin1_def split: if_splits)

lemma decodeUTF8_loop_print:
  "r \<in> set (decodeUTF8_loop U data sb) \<Longrightarrow> r \<in> set sb \<or> (IsPrint U r \<and> r \<noteq> RuneError \<and> (\<exists>p. r = fst (DecodeRune p)))"
proof (induction U data sb rule: decodeUTF8_loop.induct)
  case (1 U data sb)
  show ?case
  proof (cases "data = []")
    case True
    with "1.prems" show ?thesis by (simp add: decodeUTF8_loop.simps)
  next
    case ne: False
    show ?thesis
    proof (cases "fst (DecodeRune data) = RuneError")
      case True
      with ne "1.prems" have "r \<in> set (decodeUTF8_loop U (tl data) sb)"
        by (simp add: decodeUTF8_loop.simps [of U data])
      with "1.IH"(1) [OF ne True] show ?thesis .
    next
      case False
      let ?sb = "if IsPrint U (fst (DecodeRune data)) then sb @ [fst (DecodeRune data)] else sb"
      from ne False "1.prems"
      have "r \<in> set (decodeUTF8_loop U (drop (snd (DecodeRune data)) data) ?sb)"
        by (simp add: decodeUTF8_loop.simps [of U data])
      with "1.IH"(2) [OF ne False]
      have "r \<in> set ?sb \<or> (IsPrint U r \<and> r \<noteq> RuneError \<and> (\<exists>p. r = fst (DecodeRune p)))" .
      with False show ?thesis by (auto split: if_splits)
    qed
  qed
qed

lemma filterPrintable_loop_eq:
  "filterPrintable_loop data sb =
     sb @ map (\<lambda>b. if asciiPrintable \<le> b \<and> b \<le> asciiMax then unat b else 0x20) data"
  by (induction data arbitrary: sb) simp_all

lemma filterPrintable_loop_range:
  "r \<in> set (filterPrintable_loop data []) \<Longrightarrow> 0x20 \<le> r \<and> r \<le> 0x7E"
  by (auto simp: filterPrintable_loop_eq asciiPrintable_def asciiMax_def word_le_nat_alt split: if_splits)

lemma normal_form_props:
  assumes "out = JoinSp (Fields sb)" and "\<forall>r\<in>set sb. \<not> IsControl r"
  shows "(\<forall>r\<in>set out. \<not> IsControl r \<and> (IsSpace r \<longrightarrow> r = 0x20))
         \<and> noSpaceRun out
         \<and> (out \<noteq> [] \<longrightarrow> \<not> IsSpace (hd out) \<and> \<not> IsSpace (last out))"
proof -
  have ws: "\<forall>w\<in>set (Fields sb). w \<noteq> [] \<and> (\<forall>r\<in>set w. \<not> IsSpace r)"
    by (simp add: Fields_words)
  have sub: "set out \<subseteq> set (concat (Fields sb)) \<union> {0x20}"
    unfolding assms(1) by (rule JoinSp_set)
  have a: "\<not> IsControl r \<and> (IsSpace r \<longrightarrow> r = 0x20)" if "r \<in> set out" for r
  proof (cases "r = 0x20")
    case True
    then show ?thesis by (simp add: IsControl_def)
  next
    case False
    with sub that have r: "r \<in> set (concat (Fields sb))" by auto
    then have "r \<in> set sb" using Fields_set [of sb] by auto
    moreover from r ws have "\<not> IsSpace r" by auto
    ultimately show ?thesis using assms(2) by simp
  qed
  have b: "noSpaceRun out" using JoinSp_normal [OF ws] assms(1) by simp
  have c: "\<not> IsSpace (hd out) \<and> \<not> IsSpace (last out)" if "out \<noteq> []"
  proof -
    from that assms(1) have "Fields sb \<noteq> []" by auto
    with JoinSp_normal [OF ws] assms(1) show ?thesis by simp
  qed
  from a b c show ?thesis by blast
qed

lemma decodeUTF8_loop_no_control:
  "\<forall>r\<in>set (decodeUTF8_loop U data []). \<not> IsControl r"
  using decodeUTF8_loop_print [of _ U data "[]"] IsPrint_not_control by auto

lemma filterPrintable_loop_no_control:
  "\<forall>r\<in>set (filterPrintable_loop data []). \<not> IsControl r"
proof
  fix r assume "r \<in> set (filterPrintable_loop data [])"
  then have "0x20 \<le> r \<and> r \<le> 0x7E" by (rule filterPrintable_loop_range)
  then show "\<not> IsControl r" by (simp add: IsControl_def)
qed

text \<open>
  C5. For every byte sequence, the output of either decoder (\<open>decodeUTF8\<close> of
  \<^verbatim>\<open>main.go\<close>, \<open>filterPrintable\<close> of \<^verbatim>\<open>part_000\<close>) holds no control character, its only
  white-space rune is the space \<open>U+0020\<close>, no two white-space runes follow each other,
  and it neither starts nor ends with white space.
\<close>

theorem decoder_output_normalised:
  "(\<forall>r\<in>set (decodeUTF8 U data). \<not> IsControl r \<and> (IsSpace r \<longrightarrow> r = 0x20))
   \<and> noSpaceRun (decodeUTF8 U data)
   \<and> (decodeUTF8 U data \<noteq> []
        \<longrightarrow> \<not> IsSpace (hd (decodeUTF8 U data)) \<and> \<not> IsSpace (last (decodeUTF8 U data)))
   \<and> (\<forall>r\<in>set (filterPrintable data). \<not> IsControl r \<and> (IsSpace r \<longrightarrow> r = 0x20))
   \<and> noSpaceRun (filterPrintable data)
   \<and> (filterPrintable data \<noteq> []
        \<longrightarrow> \<not> IsSpace (hd (filterPrintable data)) \<and> \<not> IsSpace (last (filterPrintable data)))"
  using normal_form_props [OF decodeUTF8_def decodeUTF8_loop_no_control]
    normal_form_props [OF filterPrintable_def filterPrintable_loop_no_control]
  by blast

lemma sample_utf8_decoded: "decodeUTF8 latin1Only sample_utf8 = [0x68, 0xE9, 0x20, 0x41]"
  by (simp add: sample_utf8_def decodeUTF8_def decodeUTF8_loop.simps DecodeRune_def
      runeSize_def acceptLo_def acceptHi_def contByte_def RuneError_def IsPrint_def
      MaxLatin1_def latin1Only_def Fields_def IsSpace_def)

lemma sample_call_filtered: "filterPrintable sample_call = hello_world"
  by (simp add: filterPrintable_def asciiPrintable_def asciiMax_def Fields_def IsSpace_def
      MaxLatin1_def hello_world_def sample_call_def)

theorem decoder_output_normalised_witness:
  "decodeUTF8 latin1Only sample_utf8 = [0x68, 0xE9, 0x20, 0x41]
   \<and> filterPrintable sample_call = hello_world
   \<and> list_all (\<lambda>r. \<not> IsControl r) (decodeUTF8 latin1Only sample_utf8)
   \<and> noSpaceRun (decodeUTF8 latin1Only sample_utf8)
   \<and> \<not> IsSpace (hd (decodeUTF8 latin1Only sample_utf8))
   \<and> \<not> IsSpace (last (decodeUTF8 latin1Only sample_utf8))
   \<and> list_all (\<lambda>r. \<not> IsControl r) (filterPrintable sample_call)
   \<and> noSpaceRun (filterPrintable sample_call)
   \<and> \<not> IsSpace (hd (filterPrintable sample_call))
   \<and> \<not> IsSpace (last (filterPrintable sample_call))"
proof -
  have ne: "decodeUTF8 latin1Only sample_utf8 \<noteq> []" "filterPrintable sample_call \<noteq> []"
    by (simp_all add: sample_utf8_decoded sample_call_filtered hello_world_def)
  from decoder_output_normalised [of latin1Only sample_utf8]
    decoder_output_normalised [of latin1Only sample_call] ne
  show ?thesis
    unfolding list_all_iff using sample_utf8_decoded sample_call_filtered by blast
qed

section \<open>UTF-8 decoding and encoding\<close>

lemma unat_byte: "n < 256 \<Longrightarrow> unat (of_nat n :: byte) = n"
  by (simp add: unat_of_nat)

lemma mod_offset: "x = k * m + c \<Longrightarrow> c < m \<Longrightarrow> x mod m = (c::nat)"
  by simp

lemma mod64_cont: "0x80 \<le> b \<Longrightarrow> b \<le> 0xBF \<Longrightarrow> b mod 64 = b - (0x80::nat)"
  by (rule mod_offset [where k = 2]) simp_all

lemma mod32_lead: "0xC0 \<le> x \<Longrightarrow> x < 0xE0 \<Longrightarrow> x mod 32 = x - (0xC0::nat)"
  by (rule mod_offset [where k = 6]) simp_all

lemma mod16_lead: "0xE0 \<le> x \<Longrightarrow> x < 0xF0 \<Longrightarrow> x mod 16 = x - (0xE0::nat)"
  by (rule mod_offset [where k = 14]) simp_all

lemma mod8_lead: "0xF0 \<le> x \<Longrightarrow> x < 0xF8 \<Longrightarrow> x mod 8 = x - (0xF0::nat)"
  by (rule mod_offset [where k = 30]) simp_all

lemma DecodeRune_valid: "validRune (fst (DecodeRune p))"
proof (cases p)
  case Nil
  then show ?thesis by (simp add: DecodeRune_def validRune_def RuneError_def)
next
  case (Cons p0 rest)
  define x where "x = unat p0"
  define b1 where "b1 = unat (p ! 1)"
  define b2 where "b2 = unat (p ! 2)"
  define b3 where "b3 = unat (p ! 3)"
  have D: "DecodeRune p =
          (if x < 0x80 then (x, 1)
           else if x < 0xC2 \<or> 0xF5 \<le> x then (RuneError, 1)
           else if length p < runeSize x then (RuneError, 1)
           else if b1 < acceptLo x \<or> acceptHi x < b1 then (RuneError, 1)
              else if runeSize x \<le> 2 then ((x mod 32) * 64 + b1 mod 64, 2)
              else if \<not> (0x80 \<le> b2 \<and> b2 \<le> 0xBF) then (RuneError, 1)
              else if runeSize x \<le> 3
                then ((x mod 16) * 4096 + (b1 mod 64) * 64 + b2 mod 64, 3)
              else if \<not> (0x80 \<le> b3 \<and> b3 \<le> 0xBF) then (RuneError, 1)
              else ((x mod 8) * 262144 + (b1 mod 64) * 4096 + (b2 mod 64) * 64
                    + b3 mod 64, 4))"
    unfolding DecodeRune_def Cons list.case Let_def contByte_def
    unfolding Cons [symmetric] x_def [symmetric] b1_def [symmetric] b2_def [symmetric]
      b3_def [symmetric]
    by (rule refl)
  have E: "validRune RuneError" by (simp add: validRune_def RuneError_def)
  have lo: "0x80 \<le> acceptLo x" and hi: "acceptHi x \<le> 0xBF"
    by (simp_all add: acceptLo_def acceptHi_def)
  consider (ascii) "x < 0x80" | (bad) "0x80 \<le> x" "x < 0xC2 \<or> 0xF5 \<le> x"
    | (two) "0xC2 \<le> x" "x < 0xE0" | (three) "0xE0 \<le> x" "x < 0xF0"
    | (four) "0xF0 \<le> x" "x < 0xF5"
    by linarith
  then show ?thesis
  proof cases
    case ascii
    then have "DecodeRune p = (x, 1)" by (simp add: D)
    with ascii show ?thesis by (simp add: validRune_def)
  next
    case bad
    then have "DecodeRune p = (RuneError, 1)" by (auto simp: D)
    with E show ?thesis by simp
  next
    case two
    show ?thesis
    proof (cases "length p < runeSize x \<or> b1 < acceptLo x \<or> acceptHi x < b1")
      case True
      with two have "DecodeRune p = (RuneError, 1)" by (auto simp: D)
      with E show ?thesis by simp
    next
      case False
      with lo hi have b: "0x80 \<le> b1" "b1 \<le> 0xBF" by linarith+
      from two False have "DecodeRune p = ((x mod 32) * 64 + b1 mod 64, 2)"
        by (simp add: D runeSize_def)
      with two b have "fst (DecodeRune p) = (x - 0xC0) * 64 + (b1 - 0x80)"
        by (simp add: mod32_lead mod64_cont)
      moreover from two b have "(x - 0xC0) * 64 + (b1 - 0x80) < 0xD800" by linarith
      ultimately show ?thesis by (simp add: validRune_def)
    qed
  next
    case three
    show ?thesis
    proof (cases "length p < runeSize x \<or> b1 < acceptLo x \<or> acceptHi x < b1
                  \<or> \<not> (0x80 \<le> b2 \<and> b2 \<le> 0xBF)")
      case True
      with three have "DecodeRune p = (RuneError, 1)" by (auto simp: D runeSize_def)
      with E show ?thesis by simp
    next
      case False
      with lo hi have b: "0x80 \<le> b1" "b1 \<le> 0xBF" "0x80 \<le> b2" "b2 \<le> 0xBF"
        by linarith+
      from False have a: "x = 0xED \<longrightarrow> b1 \<le> 0x9F"
        by (auto simp: acceptHi_def split: if_splits)
      define u where "u = x - 0xE0"
      define c1 where "c1 = b1 - 0x80"
      define c2 where "c2 = b2 - 0x80"
      from three b a have bounds: "u < 16" "c1 < 64" "c2 < 64" "u = 13 \<longrightarrow> c1 \<le> 31"
        unfolding u_def c1_def c2_def by linarith+
      from three False
      have "DecodeRune p = ((x mod 16) * 4096 + (b1 mod 64) * 64 + b2 mod 64, 3)"
        by (simp add: D runeSize_def)
      with three b
      have r: "fst (DecodeRune p) = u * 4096 + c1 * 64 + c2"
        by (simp add: mod16_lead mod64_cont u_def c1_def c2_def)
      consider "u \<le> 12" | "u = 13" | "14 \<le> u" by linarith
      then have "u * 4096 + c1 * 64 + c2 < 0xD800
            \<or> (0xE000 \<le> u * 4096 + c1 * 64 + c2 \<and> u * 4096 + c1 * 64 + c2 \<le> 0x10FFFF)"
      proof cases
        case 1
        with bounds have "u * 4096 + c1 * 64 + c2 < 0xD800" by linarith
        then show ?thesis ..
      next
        case 2
        with bounds have "c1 \<le> 31" by simp
        with 2 bounds have "u * 4096 + c1 * 64 + c2 < 0xD800" by linarith
        then show ?thesis ..
      next
        case 3
        with bounds have "0xE000 \<le> u * 4096 + c1 * 64 + c2
            \<and> u * 4096 + c1 * 64 + c2 \<le> 0x10FFFF" by linarith
        then show ?thesis ..
      qed
      with r show ?thesis by (simp add: validRune_def)
    qed
  next
    case four
    show ?thesis
    proof (cases "length p < runeSize x \<or> b1 < acceptLo x \<or> acceptHi x < b1
                  \<or> \<not> (0x80 \<le> b2 \<and> b2 \<le> 0xBF) \<or> \<not> (0x80 \<le> b3 \<and> b3 \<le> 0xBF)")
      case True
      with four have "DecodeRune p = (RuneError, 1)" by (auto simp: D runeSize_def)
      with E show ?thesis by simp
    next
      case False
      with lo hi have b: "0x80 \<le> b1" "b1 \<le> 0xBF" "0x80 \<le> b2" "b2 \<le> 0xBF"
        "0x80 \<le> b3" "b3 \<le> 0xBF" by linarith+
      from False have a: "x = 0xF4 \<longrightarrow> b1 \<le> 0x8F" "x = 0xF0 \<longrightarrow> 0x90 \<le> b1"
        by (auto simp: acceptHi_def acceptLo_def split: if_splits)
      define u where "u = x - 0xF0"
      define c1 where "c1 = b1 - 0x80"
      define c2 where "c2 = b2 - 0x80"
      define c3 where "c3 = b3 - 0x80"
      from four b a have bounds: "u < 5" "c1 < 64" "c2 < 64" "c3 < 64"
        "u = 4 \<longrightarrow> c1 \<le> 15" "u = 0 \<longrightarrow> 16 \<le> c1"
        unfolding u_def c1_def c2_def c3_def by linarith+
      from four have x8: "x < 0xF8" by simp
      from four False
      have "DecodeRune p = ((x mod 8) * 262144 + (b1 mod 64) * 4096 + (b2 mod 64) * 64
                    + b3 mod 64, 4)"
        by (simp add: D runeSize_def)
      with four b x8
      have r: "fst (DecodeRune p) = u * 262144 + c1 * 4096 + c2 * 64 + c3"
        by (simp add: mod8_lead mod64_cont u_def c1_def c2_def c3_def)
      consider "u = 0" | "1 \<le> u" "u \<le> 3" | "u = 4" using bounds(1) by linarith
      then have "0xE000 \<le> u * 262144 + c1 * 4096 + c2 * 64 + c3
            \<and> u * 262144 + c1 * 4096 + c2 * 64 + c3 \<le> 0x10FFFF"
      proof cases
        case 1
        with bounds have "16 \<le> c1" by simp
        with 1 bounds show ?thesis by linarith
      next
        case 2
        with bounds show ?thesis by linarith
      next
        case 3
        with bounds have "c1 \<le> 15" by simp
        with 3 bounds show ?thesis by linarith
      qed
      with r show ?thesis by (simp add: validRune_def)
    qed
  qed
qed

lemma decode_one:
  "unat p0 = r \<Longrightarrow> r < 0x80 \<Longrightarrow> DecodeRune (p0 # rest) = (r, 1)"
  by (simp add: DecodeRune_def)

lemma decode_two:
  assumes "unat p0 = 0xC0 + a" "unat p1 = 0x80 + b" "2 \<le> a" "a < 32" "b < 64"
  shows "DecodeRune (p0 # p1 # rest) = (a * 64 + b, 2)"
proof -
  have m: "(0xC0 + a) mod 32 = a" using assms by (intro mod_offset [where k = 6]) simp_all
  have n: "(0x80 + b) mod 64 = b" using assms by (intro mod_offset [where k = 2]) simp_all
  show ?thesis
    using assms(3-)
    by (simp add: DecodeRune_def assms(1,2) m n runeSize_def acceptLo_def acceptHi_def)
qed

lemma decode_three:
  assumes "unat p0 = 0xE0 + a" "unat p1 = 0x80 + b" "unat p2 = 0x80 + c"
    "a < 16" "b < 64" "c < 64" "a = 0 \<longrightarrow> 32 \<le> b" "a = 13 \<longrightarrow> b < 32"
  shows "DecodeRune (p0 # p1 # p2 # rest) = (a * 4096 + b * 64 + c, 3)"
proof -
  have m: "(0xE0 + a) mod 16 = a" using assms by (intro mod_offset [where k = 14]) simp_all
  have n: "(0x80 + b) mod 64 = b" using assms by (intro mod_offset [where k = 2]) simp_all
  have n': "(0x80 + c) mod 64 = c" using assms by (intro mod_offset [where k = 2]) simp_all
  show ?thesis
    using assms(4-)
    by (simp add: DecodeRune_def Let_def assms(1-3) m n n' runeSize_def acceptLo_def acceptHi_def
        contByte_def) auto
qed

lemma decode_four:
  assumes "unat p0 = 0xF0 + a" "unat p1 = 0x80 + b" "unat p2 = 0x80 + c" "unat p3 = 0x80 + d"
    "a < 5" "b < 64" "c < 64" "d < 64" "a = 0 \<longrightarrow> 16 \<le> b" "a = 4 \<longrightarrow> b < 16"
  shows "DecodeRune (p0 # p1 # p2 # p3 # rest) = (a * 262144 + b * 4096 + c * 64 + d, 4)"
proof -
  have m: "(0xF0 + a) mod 8 = a" using assms by (intro mod_offset [where k = 30]) simp_all
  have n: "(0x80 + b) mod 64 = b" using assms by (intro mod_offset [where k = 2]) simp_all
  have n': "(0x80 + c) mod 64 = c" using assms by (intro mod_offset [where k = 2]) simp_all
  have n'': "(0x80 + d) mod 64 = d" using assms by (intro mod_offset [where k = 2]) simp_all
  show ?thesis
    using assms(5-)
    by (simp add: DecodeRune_def Let_def assms(1-4) m n n' n'' runeSize_def acceptLo_def acceptHi_def
        contByte_def) auto
qed

lemma split64: "r = (r div 64) * 64 + r mod (64::nat)"
  by simp

lemma split4096: "r = (r div 4096) * 4096 + ((r div 64) mod 64) * 64 + r mod (64::nat)"
proof -
  have "r div 4096 = (r div 64) div 64" by (simp add: div_mult2_eq)
  then have "r div 64 = (r div 4096) * 64 + (r div 64) mod 64" by simp
  then have "(r div 64) * 64 = (r div 4096) * 4096 + ((r div 64) mod 64) * 64" by simp
  with split64 [of r] show ?thesis by simp
qed

lemma split262144:
  "r = (r div 262144) * 262144 + ((r div 4096) mod 64) * 4096 + ((r div 64) mod 64) * 64
       + r mod (64::nat)"
proof -
  have "r div 262144 = (r div 4096) div 64" by (simp add: div_mult2_eq)
  then have "r div 4096 = (r div 262144) * 64 + (r div 4096) mod 64" by simp
  then have "(r div 4096) * 4096 = (r div 262144) * 262144 + ((r div 4096) mod 64) * 4096"
    by simp
  with split4096 [of r] show ?thesis by simp
qed

lemma EncodeRune_DecodeRune:
  assumes "validRune r"
  shows "DecodeRune (EncodeRune r @ rest) = (r, length (EncodeRune r))"
proof -
  consider (one) "r < 0x80" | (two) "0x80 \<le> r" "r < 0x800"
    | (three) "0x800 \<le> r" "r < 0x10000" | (four) "0x10000 \<le> r"
    by linarith
  then show ?thesis
  proof cases
    case one
    then have "unat (of_nat r :: byte) = r" by (intro unat_byte) simp
    with one show ?thesis by (simp add: EncodeRune_def decode_one)
  next
    case two
    define a where "a = r div 64"
    define b where "b = r mod 64"
    have r: "r = a * 64 + b" unfolding a_def b_def by (rule split64)
    have bb: "b < 64" unfolding b_def by simp
    from two r bb have ab: "2 \<le> a" "a < 32" by linarith+
    have e: "EncodeRune r = [of_nat (0xC0 + a), of_nat (0x80 + b)]"
      using two by (simp add: EncodeRune_def a_def b_def)
    have "DecodeRune (of_nat (0xC0 + a) # of_nat (0x80 + b) # rest) = (a * 64 + b, 2)"
      using ab bb by (intro decode_two unat_byte) simp_all
    with e r show ?thesis by simp
  next
    case three
    define a where "a = r div 4096"
    define b where "b = (r div 64) mod 64"
    define c where "c = r mod 64"
    have r: "r = a * 4096 + b * 64 + c" unfolding a_def b_def c_def by (rule split4096)
    have bb: "b < 64" "c < 64" unfolding b_def c_def by simp_all
    from three r bb have ab: "a < 16" "a = 0 \<longrightarrow> 32 \<le> b" by linarith+
    from assms three have "r < 0xD800 \<or> 0xE000 \<le> r" by (simp add: validRune_def)
    with r bb have s: "a = 13 \<longrightarrow> b < 32" by linarith
    have e: "EncodeRune r = [of_nat (0xE0 + a), of_nat (0x80 + b), of_nat (0x80 + c)]"
      using three assms by (auto simp: EncodeRune_def validRune_def a_def b_def c_def)
    have "DecodeRune (of_nat (0xE0 + a) # of_nat (0x80 + b) # of_nat (0x80 + c) # rest)
          = (a * 4096 + b * 64 + c, 3)"
      using ab bb s by (intro decode_three unat_byte) simp_all
    with e r show ?thesis by simp
  next
    case four
    define a where "a = r div 262144"
    define b where "b = (r div 4096) mod 64"
    define c where "c = (r div 64) mod 64"
    define d where "d = r mod 64"
    have r: "r = a * 262144 + b * 4096 + c * 64 + d"
      unfolding a_def b_def c_def d_def by (rule split262144)
    have bb: "b < 64" "c < 64" "d < 64" unfolding b_def c_def d_def by simp_all
    from assms four have hi: "r \<le> 0x10FFFF" by (simp add: validRune_def)
    from four hi r bb have ab: "a < 5" "a = 0 \<longrightarrow> 16 \<le> b" "a = 4 \<longrightarrow> b < 16" by linarith+
    have e: "EncodeRune r = [of_nat (0xF0 + a), of_nat (0x80 + b), of_nat (0x80 + c),
                            of_nat (0x80 + d)]"
      using four hi by (simp add: EncodeRune_def a_def b_def c_def d_def)
    have "DecodeRune (of_nat (0xF0 + a) # of_nat (0x80 + b) # of_nat (0x80 + c)
            # of_nat (0x80 + d) # rest) = (a * 262144 + b * 4096 + c * 64 + d, 4)"
      using ab bb by (intro decode_four unat_byte) simp_all
    with e r show ?thesis by simp
  qed
qed

lemma EncodeRune_nonempty: "EncodeRune r \<noteq> []"
  by (simp add: EncodeRune_def)

lemma decodeUTF8_loop_stringBytes:
  "\<forall>r\<in>set rs. IsPrint U r \<and> r \<noteq> RuneError \<and> validRune r
   \<Longrightarrow> decodeUTF8_loop U (stringBytes rs @ rest) sb = decodeUTF8_loop U rest (sb @ rs)"
proof (induction rs arbitrary: sb)
  case Nil
  show ?case by (simp add: stringBytes_def)
next
  case (Cons r rs)
  let ?data = "EncodeRune r @ (stringBytes rs @ rest)"
  from Cons.prems have r: "IsPrint U r" "r \<noteq> RuneError" "validRune r" by simp_all
  have d: "DecodeRune ?data = (r, length (EncodeRune r))"
    using r(3) by (rule EncodeRune_DecodeRune)
  have ne: "?data \<noteq> []" using EncodeRune_nonempty [of r] by simp
  have "decodeUTF8_loop U ?data sb = decodeUTF8_loop U (stringBytes rs @ rest) (sb @ [r])"
    using r(1,2) by (subst decodeUTF8_loop.simps) (simp add: d EncodeRune_nonempty)
  also have "\<dots> = decodeUTF8_loop U rest ((sb @ [r]) @ rs)"
    using Cons.prems by (intro Cons.IH) simp
  finally show ?case by (simp add: stringBytes_def)
qed

lemma decodeUTF8_runes:
  assumes "r \<in> set (decodeUTF8 U data)"
  shows "IsPrint U r \<and> r \<noteq> RuneError \<and> validRune r"
proof (cases "r = 0x20")
  case True
  then show ?thesis by (simp add: IsPrint_def MaxLatin1_def RuneError_def validRune_def)
next
  case False
  from assms JoinSp_set [of "Fields (decodeUTF8_loop U data [])"] False
  have "r \<in> set (concat (Fields (decodeUTF8_loop U data [])))"
    by (auto simp: decodeUTF8_def)
  with Fields_set have "r \<in> set (decodeUTF8_loop U data [])" by blast
  from decodeUTF8_loop_print [OF this]
  show ?thesis using DecodeRune_valid by auto
qed

lemma normal_form_fixed: "JoinSp (Fields (JoinSp (Fields sb))) = JoinSp (Fields sb)"
proof -
  have "Fields (JoinSp (Fields sb)) = Fields sb"
    by (rule Fields_JoinSp) (simp add: Fields_words)
  then show ?thesis by simp
qed

lemma filterPrintable_ascii:
  "\<forall>r\<in>set rs. 0x20 \<le> r \<and> r \<le> 0x7E
   \<Longrightarrow> filterPrintable_loop (stringBytes rs) sb = sb @ rs"
proof (induction rs arbitrary: sb)
  case Nil
  show ?case by (simp add: stringBytes_def)
next
  case (Cons r rs)
  then have r: "0x20 \<le> r" "r \<le> 0x7E" by simp_all
  then have u: "unat (of_nat r :: byte) = r" by (intro unat_byte) simp
  from r have e: "EncodeRune r = [of_nat r]" by (simp add: EncodeRune_def)
  have "stringBytes (r # rs) = of_nat r # stringBytes rs"
    by (simp add: stringBytes_def e)
  moreover have "asciiPrintable \<le> (of_nat r :: byte) \<and> (of_nat r :: byte) \<le> asciiMax"
    using r by (simp add: word_le_nat_alt u asciiPrintable_def asciiMax_def)
  ultimately have "filterPrintable_loop (stringBytes (r # rs)) sb
                   = filterPrintable_loop (stringBytes rs) (sb @ [r])"
    by (simp add: u)
  also have "\<dots> = (sb @ [r]) @ rs" using Cons.prems by (intro Cons.IH) simp
  finally show ?case by simp
qed

lemma filterPrintable_runes:
  assumes "r \<in> set (filterPrintable data)"
  shows "0x20 \<le> r \<and> r \<le> 0x7E"
proof (cases "r = 0x20")
  case True
  then show ?thesis by simp
next
  case False
  from assms JoinSp_set [of "Fields (filterPrintable_loop data [])"] False
  have "r \<in> set (concat (Fields (filterPrintable_loop data [])))"
    by (auto simp: filterPrintable_def)
  with Fields_set have "r \<in> set (filterPrintable_loop data [])" by blast
  then show ?thesis by (rule filterPrintable_loop_range)
qed

text \<open>
  C4. Decoding is idempotent: for every byte sequence, either decoder applied to the bytes
  of its own output (the UTF-8 encoding of the output string) gives that output again.
\<close>

theorem decoder_idempotent:
  "decodeUTF8 U (stringBytes (decodeUTF8 U data)) = decodeUTF8 U data
   \<and> filterPrintable (stringBytes (filterPrintable data)) = filterPrintable data"
proof
  have "decodeUTF8_loop U (stringBytes (decodeUTF8 U data) @ []) [] 
        = decodeUTF8_loop U [] ([] @ decodeUTF8 U data)"
    by (rule decodeUTF8_loop_stringBytes) (simp add: decodeUTF8_runes)
  then have "decodeUTF8_loop U (stringBytes (decodeUTF8 U data)) [] = decodeUTF8 U data"
    by (simp add: decodeUTF8_loop.simps)
  then have "decodeUTF8 U (stringBytes (decodeUTF8 U data)) = JoinSp (Fields (decodeUTF8 U data))"
    by (simp add: decodeUTF8_def)
  then show "decodeUTF8 U (stringBytes (decodeUTF8 U data)) = decodeUTF8 U data"
    by (simp add: decodeUTF8_def normal_form_fixed)
next
  have "filterPrintable_loop (stringBytes (filterPrintable data)) [] = [] @ filterPrintable data"
    by (rule filterPrintable_ascii) (simp add: filterPrintable_runes)
  then have "filterPrintable (stringBytes (filterPrintable data))
             = JoinSp (Fields (filterPrintable data))"
    by (simp add: filterPrintable_def)
  then show "filterPrintable (stringBytes (filterPrintable data)) = filterPrintable data"
    by (simp add: filterPrintable_def normal_form_fixed)
qed

end
